theory Spec2Isabelle
  imports Main "HOL-Library.Word" "HOL-Library.Multiset"
begin

section \<open>The Go store: backing arrays, slice headers and pointers to slices\<close>

text \<open>
  The type under verification is
  \<^verbatim>\<open>type List struct { value *[]string; length int }\<close>.
  Its methods have value receivers and mutate through the pointer \<open>value\<close>, and Go's
  \<open>append\<close> writes into the backing array of its first argument whenever the capacity
  suffices. Both effects are observable, so the store is explicit: a backing array is a
  string list stored at an address, a slice header is a window (array, offset, length,
  capacity) into such an array, and a pointer \<open>*[]string\<close> is the address of a cell
  that holds a slice header.

  Go's \<open>int\<close> is a 64-bit two's complement integer (\<open>64 word\<close>, read with \<open>sint\<close>).
  Sizes and loop counters, which never leave \<open>0 .. len\<close>, are natural numbers.
\<close>

datatype error = NilPointer | OutOfRange

type_synonym addr = nat
type_synonym go_int = "64 word"

record slice =
  s_arr :: addr
  s_off :: nat
  s_len :: nat
  s_cap :: nat

record heap =
  arrays :: "string list list"
  cells :: "slice list"

text \<open>The zero value of a slice type: \<open>nil\<close>, of length and capacity 0.\<close>

definition nil_slice :: slice where
  "nil_slice = \<lparr>s_arr = 0, s_off = 0, s_len = 0, s_cap = 0\<rparr>"

text \<open>The elements of a slice, as \<open>range\<close>, \<open>len\<close> and \<open>s...\<close> see them.\<close>

definition elems :: "heap \<Rightarrow> slice \<Rightarrow> string list" where
  "elems h s = take (s_len s) (drop (s_off s) (arrays h ! s_arr s))"

text \<open>\<open>s[i]\<close> as a \<open>range\<close> loop reads it at iteration \<open>i < len(s)\<close>.\<close>

definition at_go :: "heap \<Rightarrow> slice \<Rightarrow> nat \<Rightarrow> string" where
  "at_go h s i = arrays h ! s_arr s ! (s_off s + i)"

text \<open>
  The slice expression \<open>s[lo:hi]\<close>; it panics unless \<open>0 <= lo <= hi <= cap(s)\<close>.
  \<open>s[:i]\<close> is \<open>s[0:i]\<close> and \<open>s[i:]\<close> is \<open>s[i:len(s)]\<close>.
\<close>

definition reslice :: "slice \<Rightarrow> int \<Rightarrow> int \<Rightarrow> error + slice" where
  "reslice s lo hi =
     (if 0 \<le> lo \<and> lo \<le> hi \<and> hi \<le> int (s_cap s)
      then Inr \<lparr>s_arr = s_arr s, s_off = s_off s + nat lo,
                s_len = nat hi - nat lo, s_cap = s_cap s - nat lo\<rparr>
      else Inl OutOfRange)"

definition write_at :: "string list \<Rightarrow> nat \<Rightarrow> string list \<Rightarrow> string list" where
  "write_at a i vs = take i a @ vs @ drop (i + length vs) a"

text \<open>
  \<open>append(s, vs...)\<close>. The values \<open>vs\<close> are read before anything is written (the
  runtime copies with memmove). When the capacity suffices the elements are written into
  the backing array of \<open>s\<close>, behind its last element, and every slice over that array
  sees them. Otherwise a new array is allocated; how much larger than needed it is, is the
  runtime's choice and a parameter here: \<open>grow (cap s) n\<close> spare slots for \<open>n\<close> needed.
\<close>

definition append_go :: "(nat \<Rightarrow> nat \<Rightarrow> nat) \<Rightarrow> heap \<Rightarrow> slice \<Rightarrow> string list \<Rightarrow> slice \<times> heap" where
  "append_go grow h s vs =
     (let n = s_len s + length vs in
      if n \<le> s_cap s then
        (s\<lparr>s_len := n\<rparr>,
         h\<lparr>arrays := (arrays h)[s_arr s := write_at (arrays h ! s_arr s) (s_off s + s_len s) vs]\<rparr>)
      else
        (let c = n + grow (s_cap s) n in
         (\<lparr>s_arr = length (arrays h), s_off = 0, s_len = n, s_cap = c\<rparr>,
          h\<lparr>arrays := arrays h @ [elems h s @ vs @ replicate (c - n) '''']\<rparr>)))"

text \<open>\<open>make([]string, 0, c)\<close>: a new array of \<open>c\<close> empty strings, and a slice of length 0 over it.\<close>

definition make_go :: "heap \<Rightarrow> nat \<Rightarrow> slice \<times> heap" where
  "make_go h c =
     (\<lparr>s_arr = length (arrays h), s_off = 0, s_len = 0, s_cap = c\<rparr>,
      h\<lparr>arrays := arrays h @ [replicate c '''']\<rparr>)"

text \<open>A slice literal \<open>[]string{...}\<close>: a new array holding exactly the given strings.\<close>

definition lit_go :: "heap \<Rightarrow> string list \<Rightarrow> slice \<times> heap" where
  "lit_go h xs =
     (\<lparr>s_arr = length (arrays h), s_off = 0, s_len = length xs, s_cap = length xs\<rparr>,
      h\<lparr>arrays := arrays h @ [xs]\<rparr>)"

text \<open>\<open>&val\<close> for a local \<open>val\<close> that escapes: a new cell. \<open>*p = s\<close>: a store into a cell.\<close>

definition new_cell :: "heap \<Rightarrow> slice \<Rightarrow> addr \<times> heap" where
  "new_cell h s = (length (cells h), h\<lparr>cells := cells h @ [s]\<rparr>)"

definition store :: "heap \<Rightarrow> addr \<Rightarrow> slice \<Rightarrow> heap" where
  "store h a s = h\<lparr>cells := (cells h)[a := s]\<rparr>"

text \<open>
  A slice header is well formed in a store when its window lies inside an allocated
  array; a slice of capacity 0 (such as \<open>nil\<close>) refers to no array at all. Go's memory
  safety keeps every reachable slice well formed.
\<close>

definition wf_slice :: "heap \<Rightarrow> slice \<Rightarrow> bool" where
  "wf_slice h s \<longleftrightarrow>
     s_len s \<le> s_cap s \<and>
     (s_cap s = 0 \<or>
      (s_arr s < length (arrays h) \<and> s_off s + s_cap s \<le> length (arrays h ! s_arr s)))"

section \<open>The List type and its operations\<close>

record List_go =
  value_go :: "addr option"
  length_go :: go_int

text \<open>
  A list is well formed when its \<open>value\<close> pointer is not nil and points to a well-formed
  slice, as it does in every list returned by a constructor of the package.
\<close>

definition wf_List :: "heap \<Rightarrow> List_go \<Rightarrow> bool" where
  "wf_List h d =
     (case value_go d of None \<Rightarrow> False
      | Some a \<Rightarrow> a < length (cells h) \<and> wf_slice h (cells h ! a))"

text \<open>The true size of the backing sequence, \<open>len(*d.value)\<close>.\<close>

definition true_size :: "heap \<Rightarrow> List_go \<Rightarrow> nat" where
  "true_size h d = (case value_go d of None \<Rightarrow> 0 | Some a \<Rightarrow> s_len (cells h ! a))"

subsection \<open>Constructors\<close>

text \<open>
  \<^verbatim>\<open>func NewList(va interface{}) List\<close>. The argument \<open>val\<close> of the model is the slice
  that the external coercion \<open>cast.ToStringSlice(va)\<close> returned.
\<close>

definition NewList :: "slice \<Rightarrow> heap \<Rightarrow> List_go \<times> heap" where
  "NewList val h =
     (let l = s_len val; (p, h') = new_cell h val
      in (\<lparr>value_go = Some p, length_go = of_nat l\<rparr>, h'))"

definition NilList :: "heap \<Rightarrow> List_go \<times> heap" where
  "NilList h =
     (let (p, h') = new_cell h nil_slice
      in (\<lparr>value_go = Some p, length_go = 0\<rparr>, h'))"

text \<open>
  \<^verbatim>\<open>func New(value int64, length int) List\<close>.
  Modelled from the spec: \<open>cast.ToStringSlice\<close> belongs to an external package; applied to
  a single number it yields "the single-element coercion of value".
\<close>

definition NewStrSlice :: "('v \<Rightarrow> string) \<Rightarrow> 'v \<Rightarrow> heap \<Rightarrow> addr \<times> heap" where
  "NewStrSlice toString va h =
     (let (val, h1) = lit_go h [toString va] in new_cell h1 val)"

definition New :: "('v \<Rightarrow> string) \<Rightarrow> 'v \<Rightarrow> go_int \<Rightarrow> heap \<Rightarrow> List_go \<times> heap" where
  "New toString v l h =
     (let (p, h') = NewStrSlice toString v h
      in (\<lparr>value_go = Some p, length_go = l\<rparr>, h'))"

subsection \<open>Copy\<close>

definition ensureInitialized :: "List_go \<Rightarrow> heap \<Rightarrow> List_go \<times> heap" where
  "ensureInitialized d h =
     (case value_go d of
        None \<Rightarrow> (let (p, h') = new_cell h nil_slice in (d\<lparr>value_go := Some p\<rparr>, h'))
      | Some a \<Rightarrow> (d, h))"

text \<open>\<open>&(*d.value)\<close> is the pointer \<open>d.value\<close> itself: no slice header is copied.\<close>

definition Copy :: "List_go \<Rightarrow> heap \<Rightarrow> List_go \<times> heap" where
  "Copy d h =
     (let (d', h') = ensureInitialized d h
      in (\<lparr>value_go = value_go d', length_go = length_go d'\<rparr>, h'))"

subsection \<open>Queries\<close>

definition Length :: "List_go \<Rightarrow> go_int" where
  "Length d = length_go d"

text \<open>The cached length is stale when it differs from the true size.\<close>

definition stale :: "heap \<Rightarrow> List_go \<Rightarrow> bool" where
  "stale h d \<longleftrightarrow> sint (Length d) \<noteq> int (true_size h d)"

text \<open>\<open>String()\<close>: the backing sequence verbatim.\<close>

definition String_go :: "List_go \<Rightarrow> heap \<Rightarrow> error + string list" where
  "String_go d h =
     (case value_go d of None \<Rightarrow> Inl NilPointer
      | Some a \<Rightarrow> Inr (elems h (cells h ! a)))"

text \<open>
  \<^verbatim>\<open>for i, n := range s1 { if n != s2[i] { return false } }\<close>: the loop reads \<open>s1\<close>
  and \<open>s2\<close> only, so it runs over their elements; \<open>s2[i]\<close> is bounds-checked.
\<close>

fun Equal_loop :: "string list \<Rightarrow> string list \<Rightarrow> nat \<Rightarrow> error + bool" where
  "Equal_loop [] s2 i = Inr True"
| "Equal_loop (n # rest) s2 i =
     (if i < length s2
      then (if n \<noteq> s2 ! i then Inr False else Equal_loop rest s2 (Suc i))
      else Inl OutOfRange)"

definition Equal :: "List_go \<Rightarrow> List_go \<Rightarrow> heap \<Rightarrow> error + bool" where
  "Equal d d2 h =
     (case value_go d of None \<Rightarrow> Inl NilPointer | Some a \<Rightarrow>
       (case value_go d2 of None \<Rightarrow> Inl NilPointer | Some a2 \<Rightarrow>
         (let s1 = elems h (cells h ! a); s2 = elems h (cells h ! a2)
          in if length s1 \<noteq> length s2 then Inr False else Equal_loop s1 s2 0)))"

text \<open>
  \<^verbatim>\<open>func inI(fat *[]string, sub interface{}) (int, bool)\<close>: the first position whose
  element equals the coerced \<open>sub\<close>. The coercion \<open>cast.ToString\<close> is external and is
  the parameter \<open>toString\<close>.
\<close>

fun inI_loop :: "string list \<Rightarrow> string \<Rightarrow> nat \<Rightarrow> go_int \<times> bool" where
  "inI_loop [] s i = (- 1, False)"
| "inI_loop (v # rest) s i = (if v = s then (of_nat i, True) else inI_loop rest s (Suc i))"

definition inI :: "('v \<Rightarrow> string) \<Rightarrow> heap \<Rightarrow> addr option \<Rightarrow> 'v \<Rightarrow> error + (go_int \<times> bool)" where
  "inI toString h fat sub =
     (let s = toString sub in
      case fat of None \<Rightarrow> Inl NilPointer
      | Some a \<Rightarrow> Inr (inI_loop (elems h (cells h ! a)) s 0))"

definition In :: "('v \<Rightarrow> string) \<Rightarrow> List_go \<Rightarrow> 'v \<Rightarrow> heap \<Rightarrow> error + bool" where
  "In toString d sub h =
     (case inI toString h (value_go d) sub of Inl e \<Rightarrow> Inl e | Inr (_, ok) \<Rightarrow> Inr ok)"

definition Index :: "('v \<Rightarrow> string) \<Rightarrow> List_go \<Rightarrow> 'v \<Rightarrow> heap \<Rightarrow> error + go_int" where
  "Index toString d sub h =
     (case inI toString h (value_go d) sub of Inl e \<Rightarrow> Inl e | Inr (index, _) \<Rightarrow> Inr index)"






subsection \<open>Sub\<close>

text \<open>
  A \<open>map[string]bool\<close> is an association list with distinct keys; reading a missing key
  gives \<open>false\<close>. A \<open>range\<close> over a map visits every entry once in an order that Go
  leaves unspecified: the order is the parameter \<open>order\<close>, which rearranges the entries.
\<close>

type_synonym go_map = "(string \<times> bool) list"

definition map_get :: "go_map \<Rightarrow> string \<Rightarrow> bool" where
  "map_get m k = (case map_of m k of None \<Rightarrow> False | Some b \<Rightarrow> b)"

fun map_set :: "go_map \<Rightarrow> string \<Rightarrow> bool \<Rightarrow> go_map" where
  "map_set [] k b = [(k, b)]"
| "map_set ((k', b') # m) k b = (if k' = k then (k, b) # m else (k', b') # map_set m k b)"

fun Sub_fill :: "string list \<Rightarrow> go_map \<Rightarrow> go_map" where
  "Sub_fill [] d2Map = d2Map"
| "Sub_fill (v # rest) d2Map =
     Sub_fill rest (if \<not> map_get d2Map v then map_set d2Map v True else d2Map)"

fun Sub_collect :: "(nat \<Rightarrow> nat \<Rightarrow> nat) \<Rightarrow> go_map \<Rightarrow> slice \<Rightarrow> heap \<Rightarrow> slice \<times> heap" where
  "Sub_collect grow [] d3Value h = (d3Value, h)"
| "Sub_collect grow ((k, _) # rest) d3Value h =
     (let (d3Value', h') = append_go grow h d3Value [k] in Sub_collect grow rest d3Value' h')"

definition Sub :: "(nat \<Rightarrow> nat \<Rightarrow> nat) \<Rightarrow> (go_map \<Rightarrow> go_map) \<Rightarrow> List_go \<Rightarrow> List_go \<Rightarrow> heap
    \<Rightarrow> error + (List_go \<times> heap)" where
  "Sub grow order d d2 h =
     (case value_go d of None \<Rightarrow> Inl NilPointer | Some a \<Rightarrow>
       (case value_go d2 of None \<Rightarrow> Inl NilPointer | Some a2 \<Rightarrow>
         (let rdv = cells h ! a;
              rdv2 = cells h ! a2;
              (d2Value, h1) = append_go grow h rdv (elems h rdv2);
              d2Map = Sub_fill (elems h1 d2Value) [];
              l2 = s_len rdv + s_len rdv2;
              (d3Value0, h2) = make_go h1 l2;
              (d3Value, h3) = Sub_collect grow (order d2Map) d3Value0 h2;
              (p, h4) = new_cell h3 d3Value
          in Inr (\<lparr>value_go = Some p, length_go = of_nat (s_len d3Value)\<rparr>, h4))))"

subsection \<open>Mutating operations\<close>

text \<open>
  Each method loads the slice header \<open>fats := *d.value\<close>, builds a new header with
  \<open>append\<close> and stores it through the pointer. The receiver \<open>d\<close> is passed by value:
  no method can change the caller's \<open>d.length\<close>, and the result of a method is the new
  store only.
\<close>

definition Extend :: "(nat \<Rightarrow> nat \<Rightarrow> nat) \<Rightarrow> List_go \<Rightarrow> string list \<Rightarrow> heap \<Rightarrow> error + heap" where
  "Extend grow d subs h =
     (case value_go d of None \<Rightarrow> Inl NilPointer
      | Some a \<Rightarrow>
          (let (s', h') = append_go grow h (cells h ! a) subs in Inr (store h' a s')))"

definition Pop :: "(nat \<Rightarrow> nat \<Rightarrow> nat) \<Rightarrow> List_go \<Rightarrow> go_int \<Rightarrow> heap \<Rightarrow> error + heap" where
  "Pop grow d idx h =
     (case value_go d of None \<Rightarrow> Inl NilPointer
      | Some a \<Rightarrow>
          (let fats = cells h ! a;
               idx' = (if idx <s 0 then length_go d + idx else idx)
           in case reslice fats 0 (sint idx') of Inl e \<Rightarrow> Inl e
              | Inr front \<Rightarrow>
                 (case reslice fats (sint (idx' + 1)) (int (s_len fats)) of Inl e \<Rightarrow> Inl e
                  | Inr back \<Rightarrow>
                     (let (s', h') = append_go grow h front (elems h back)
                      in Inr (store h' a s')))))"

text \<open>
  \<^verbatim>\<open>for i, v := range fats { if v == str { *d.value = append(fats[:i], fats[(i+1):]...) } }\<close>
  The loop runs \<open>len(fats)\<close> times over the header loaded before the loop, reads
  \<open>fats[i]\<close> from the array as it is at iteration \<open>i\<close>, and does not stop at a match.
  \<open>Remove_loop ... i k\<close> is the loop at index \<open>i\<close> with \<open>k\<close> iterations left.
\<close>

fun Remove_loop :: "(nat \<Rightarrow> nat \<Rightarrow> nat) \<Rightarrow> addr \<Rightarrow> slice \<Rightarrow> string \<Rightarrow> nat \<Rightarrow> nat \<Rightarrow> heap \<Rightarrow> error + heap" where
  "Remove_loop grow a fats str i 0 h = Inr h"
| "Remove_loop grow a fats str i (Suc k) h =
     (if at_go h fats i = str then
        (case reslice fats 0 (int i) of Inl e \<Rightarrow> Inl e
         | Inr front \<Rightarrow>
            (case reslice fats (int i + 1) (int (s_len fats)) of Inl e \<Rightarrow> Inl e
             | Inr back \<Rightarrow>
                (let (s', h') = append_go grow h front (elems h back)
                 in Remove_loop grow a fats str (Suc i) k (store h' a s'))))
      else Remove_loop grow a fats str (Suc i) k h)"

definition Remove :: "(nat \<Rightarrow> nat \<Rightarrow> nat) \<Rightarrow> ('v \<Rightarrow> string) \<Rightarrow> List_go \<Rightarrow> 'v \<Rightarrow> heap \<Rightarrow> error + heap" where
  "Remove grow toString d v h =
     (case value_go d of None \<Rightarrow> Inl NilPointer
      | Some a \<Rightarrow>
          (let fats = cells h ! a; str = toString v
           in Remove_loop grow a fats str 0 (s_len fats) h))"

definition Append :: "(nat \<Rightarrow> nat \<Rightarrow> nat) \<Rightarrow> ('v \<Rightarrow> string) \<Rightarrow> List_go \<Rightarrow> 'v \<Rightarrow> heap \<Rightarrow> error + heap" where
  "Append grow toString d v h =
     (case value_go d of None \<Rightarrow> Inl NilPointer
      | Some a \<Rightarrow>
          (let fats = cells h ! a; str = toString v;
               (s', h') = append_go grow h fats [str]
           in Inr (store h' a s')))"

text \<open>
  \<^verbatim>\<open>res := append(fats[:idx], str); *d.value = append(res, fats[idx:]...)\<close>
  The second \<open>append\<close> reads \<open>fats[idx:]\<close> from the store that the first one left.
\<close>

definition Insert :: "(nat \<Rightarrow> nat \<Rightarrow> nat) \<Rightarrow> ('v \<Rightarrow> string) \<Rightarrow> List_go \<Rightarrow> go_int \<Rightarrow> 'v \<Rightarrow> heap \<Rightarrow> error + heap" where
  "Insert grow toString d idx v h =
     (case value_go d of None \<Rightarrow> Inl NilPointer
      | Some a \<Rightarrow>
          (let fats = cells h ! a; str = toString v
           in case reslice fats 0 (sint idx) of Inl e \<Rightarrow> Inl e
              | Inr front \<Rightarrow>
                 (let (res, h1) = append_go grow h front [str]
                  in case reslice fats (sint idx) (int (s_len fats)) of Inl e \<Rightarrow> Inl e
                     | Inr back \<Rightarrow>
                        (let (s', h2) = append_go grow h1 res (elems h1 back)
                         in Inr (store h2 a s')))))"

section \<open>Example stores\<close>

text \<open>
  Concrete inputs on which the theorems below are exercised: the empty store, lists built
  by \<open>NewList\<close> from slice literals, and an allocator without spare capacity.
\<close>

definition empty_heap :: heap where
  "empty_heap = \<lparr>arrays = [], cells = []\<rparr>"

definition NewList_lit :: "string list \<Rightarrow> heap \<Rightarrow> List_go \<times> heap" where
  "NewList_lit xs h = (let (val, h1) = lit_go h xs in NewList val h1)"

fun NewLists :: "string list list \<Rightarrow> heap \<Rightarrow> List_go list \<times> heap" where
  "NewLists [] h = ([], h)"
| "NewLists (xs # xss) h =
     (let (d, h1) = NewList_lit xs h; (ds, h2) = NewLists xss h1 in (d # ds, h2))"

definition exact_fit :: "nat \<Rightarrow> nat \<Rightarrow> nat" where
  "exact_fit c n = 0"

definition ex_equal :: "List_go list \<times> heap" where
  "ex_equal = NewLists [[''a'', ''b''], [''b'', ''a''], [''a''], [''a'', ''a'']] empty_heap"

definition ex_stale :: "List_go list \<times> heap" where
  "ex_stale = NewLists [[''a''], [''a'', ''b'']] empty_heap"

definition ex_stale_heap :: heap where
  "ex_stale_heap =
     (case Append exact_fit id (fst ex_stale ! 0) ''b'' (snd ex_stale) of
        Inr h \<Rightarrow> h | Inl e \<Rightarrow> empty_heap)"

definition ex_new1 :: "List_go \<times> heap" where
  "ex_new1 = New id ''7'' 1 ex_stale_heap"

definition ex_new5 :: "List_go \<times> heap" where
  "ex_new5 = New id ''7'' 5 (snd ex_new1)"

definition ex_pop :: "List_go \<times> heap" where
  "ex_pop = NewList_lit [''a'', ''b'', ''c''] empty_heap"

definition ex_copy :: "List_go \<times> heap" where
  "ex_copy = Copy (fst ex_pop) (snd ex_pop)"

definition ex_dup :: "List_go \<times> heap" where
  "ex_dup = NewList_lit [''a'', ''b''] empty_heap"

definition ex_dup_heap :: heap where
  "ex_dup_heap =
     (case Append exact_fit id (fst ex_dup) ''a'' (snd ex_dup) of
        Inr h \<Rightarrow> h | Inl e \<Rightarrow> empty_heap)"

definition ex_abac :: "List_go \<times> heap" where
  "ex_abac = NewList_lit [''a'', ''b'', ''a'', ''c''] empty_heap"

definition ex_abac_heap :: heap where
  "ex_abac_heap =
     (case Remove exact_fit id (fst ex_abac) ''a'' (snd ex_abac) of
        Inr h \<Rightarrow> h | Inl e \<Rightarrow> empty_heap)"

definition ex_insert_heap :: heap where
  "ex_insert_heap =
     (case Insert exact_fit id (fst ex_dup) 0 ''x'' (snd ex_dup) of
        Inr h \<Rightarrow> h | Inl e \<Rightarrow> empty_heap)"





definition ex_sub :: "List_go list \<times> heap" where
  "ex_sub = NewLists [[''a'', ''b'', ''a''], [''b'', ''c'']] empty_heap"

section \<open>Properties of the store\<close>

lemmas store_defs = empty_heap_def NewList_lit_def lit_go_def NewList_def new_cell_def
  String_go_def elems_def

lemma length_elems: "wf_slice h s \<Longrightarrow> length (elems h s) = s_len s"
  by (auto simp: wf_slice_def elems_def)

lemma write_at_Nil [simp]: "write_at a i [] = a"
  by (simp add: write_at_def)

lemma length_write_at: "i + length vs \<le> length a \<Longrightarrow> length (write_at a i vs) = length a"
  by (simp add: write_at_def)

lemma write_at_window:
  assumes "k + l + length vs \<le> length a"
  shows "take (l + length vs) (drop k (write_at a (k + l) vs)) = take l (drop k a) @ vs"
proof -
  have "drop k (take (k + l) a) = take l (drop k a)"
    by (simp add: drop_take)
  moreover have "length (take l (drop k a)) = l"
    using assms by simp
  ultimately show ?thesis
    using assms by (simp add: write_at_def)
qed

text \<open>\<open>append\<close> returns a slice holding the old elements followed by the new ones.\<close>

lemma append_go_elems:
  assumes "wf_slice h s" and "append_go g h s vs = (s', h')"
  shows "elems h' s' = elems h s @ vs"
proof (cases "s_len s + length vs \<le> s_cap s")
  case True
  show ?thesis
  proof (cases "s_cap s = 0")
    case True
    with \<open>s_len s + length vs \<le> s_cap s\<close> assms show ?thesis
      by (auto simp: append_go_def elems_def)
  next
    case False
    with True assms have a: "s_arr s < length (arrays h)"
      and b: "s_off s + s_len s + length vs \<le> length (arrays h ! s_arr s)"
      by (auto simp: wf_slice_def)
    from True assms(2) have "s' = s\<lparr>s_len := s_len s + length vs\<rparr>"
      and "h' = h\<lparr>arrays := (arrays h)[s_arr s := write_at (arrays h ! s_arr s) (s_off s + s_len s) vs]\<rparr>"
      by (auto simp: append_go_def Let_def)
    with a write_at_window[OF b] show ?thesis
      by (simp add: elems_def)
  qed
next
  case False
  have "length (elems h s) = s_len s"
    using assms(1) by (rule length_elems)
  with False assms(2) show ?thesis
    by (auto simp: append_go_def Let_def elems_def)
qed

lemma append_go_wf:
  assumes "wf_slice h s" and "append_go g h s vs = (s', h')"
  shows "wf_slice h' s'"
proof (cases "s_len s + length vs \<le> s_cap s")
  case True
  with assms show ?thesis
    by (auto simp: append_go_def Let_def wf_slice_def length_write_at)
next
  case False
  have "length (elems h s) = s_len s"
    using assms(1) by (rule length_elems)
  with False assms(2) show ?thesis
    by (auto simp: append_go_def Let_def wf_slice_def)
qed

text \<open>No array is freed or resized by \<open>append\<close>, so other slices stay well formed.\<close>

lemma append_go_arrays:
  assumes "wf_slice h s" and "append_go g h s vs = (s', h')"
  shows "length (arrays h) \<le> length (arrays h')"
    and "b < length (arrays h) \<Longrightarrow> length (arrays h' ! b) = length (arrays h ! b)"
proof -
  show "length (arrays h) \<le> length (arrays h')"
    using assms(2) by (auto simp: append_go_def Let_def split: if_splits)
  assume b: "b < length (arrays h)"
  show "length (arrays h' ! b) = length (arrays h ! b)"
  proof (cases "s_len s + length vs \<le> s_cap s")
    case True
    then have h': "h' = h\<lparr>arrays := (arrays h)[s_arr s := write_at (arrays h ! s_arr s) (s_off s + s_len s) vs]\<rparr>"
      using assms(2) by (auto simp: append_go_def Let_def)
    show ?thesis
    proof (cases "s_cap s = 0")
      case True
      with \<open>s_len s + length vs \<le> s_cap s\<close> h' show ?thesis
        by simp
    next
      case False
      with True assms(1) have "s_off s + s_len s + length vs \<le> length (arrays h ! s_arr s)"
        by (auto simp: wf_slice_def)
      then have "length (write_at (arrays h ! s_arr s) (s_off s + s_len s) vs) = length (arrays h ! s_arr s)"
        by (simp add: length_write_at)
      with b h' show ?thesis
        by (cases "b = s_arr s") simp_all
    qed
  next
    case False
    with assms(2) b show ?thesis
      by (auto simp: append_go_def Let_def nth_append)
  qed
qed

lemma append_go_wf_other:
  assumes "wf_slice h s" and "append_go g h s vs = (s', h')" and "wf_slice h t"
  shows "wf_slice h' t"
  using append_go_arrays[OF assms(1,2)] assms(3)
  by (auto simp: wf_slice_def)

lemma append_go_cells:
  "append_go g h s vs = (s', h') \<Longrightarrow> cells h' = cells h"
  by (auto simp: append_go_def Let_def split: if_splits)

section \<open>The constructors build well-formed lists\<close>

lemma NewList_wf:
  assumes "wf_slice h val" and "NewList val h = (d, h')"
  shows "wf_List h' d" and "String_go d h' = Inr (elems h val)"
    and "Length d = of_nat (length (elems h val))"
  using assms length_elems[OF assms(1)]
  by (auto simp: NewList_def new_cell_def wf_List_def wf_slice_def String_go_def elems_def
      Length_def)

lemma NilList_wf:
  assumes "NilList h = (d, h')"
  shows "wf_List h' d" and "String_go d h' = Inr []" and "Length d = 0"
  using assms
  by (auto simp: NilList_def new_cell_def nil_slice_def wf_List_def wf_slice_def
      String_go_def elems_def Length_def)

lemma New_wf:
  assumes "New toString v l h = (d, h')"
  shows "wf_List h' d" and "String_go d h' = Inr [toString v]" and "Length d = l"
  using assms
  by (auto simp: New_def NewStrSlice_def lit_go_def new_cell_def wf_List_def wf_slice_def
      String_go_def elems_def Length_def)

section \<open>Equal\<close>

lemma Equal_loop_drop:
  "i + length xs = length ys \<Longrightarrow> Equal_loop xs ys i = Inr (xs = drop i ys)"
proof (induction xs arbitrary: i)
  case Nil
  then show ?case by simp
next
  case (Cons x xs)
  then have i: "i < length ys" by simp
  then have "drop i ys = ys ! i # drop (Suc i) ys"
    by (simp add: Cons_nth_drop_Suc)
  with Cons i show ?case by auto
qed

text \<open>\<open>Equal\<close> decides equality of the two backing sequences, and never panics on
  lists whose pointers are set.\<close>

lemma Equal_elems:
  assumes "String_go d h = Inr xs" and "String_go d2 h = Inr ys"
  shows "Equal d d2 h = Inr (xs = ys)"
proof -
  from assms obtain a a2 where a: "value_go d = Some a" "xs = elems h (cells h ! a)"
    and a2: "value_go d2 = Some a2" "ys = elems h (cells h ! a2)"
    by (auto simp: String_go_def split: option.splits)
  show ?thesis
  proof (cases "length xs = length ys")
    case True
    then have "Equal_loop xs ys 0 = Inr (xs = ys)"
      using Equal_loop_drop[of 0 xs ys] by simp
    with True a a2 show ?thesis by (simp add: Equal_def)
  next
    case False
    with a a2 show ?thesis by (auto simp: Equal_def)
  qed
qed

text \<open>
  Claim C8. \<open>Equal\<close> is reflexive and symmetric, and it is sensitive to order and to
  length: on two lists of one store with backing sequences \<open>xs\<close> and \<open>ys\<close> it returns
  whether \<open>xs = ys\<close>; so \<open>[a,b].Equal([b,a])\<close> is false when \<open>a\<close> differs from \<open>b\<close>,
  \<open>[a,b].Equal([a,b])\<close> is true and \<open>[a].Equal([a,a])\<close> is false.
\<close>

theorem Equal_refl_sym_order_length:
  assumes "String_go d h = Inr xs" and "String_go d2 h = Inr ys"
  shows "Equal d d h = Inr True \<and>
         Equal d d2 h = Equal d2 d h \<and>
         Equal d d2 h = Inr (xs = ys) \<and>
         (a \<noteq> b \<and> xs = [a, b] \<and> ys = [b, a] \<longrightarrow> Equal d d2 h = Inr False) \<and>
         (xs = [a, b] \<and> ys = [a, b] \<longrightarrow> Equal d d2 h = Inr True) \<and>
         (xs = [a] \<and> ys = [a, a] \<longrightarrow> Equal d d2 h = Inr False)"
  using Equal_elems[OF assms(1) assms(1)] Equal_elems[OF assms(1) assms(2)]
    Equal_elems[OF assms(2) assms(1)]
  by auto

theorem Equal_refl_sym_order_length_witness:
  "String_go (fst ex_equal ! 0) (snd ex_equal) = Inr [''a'', ''b''] \<and>
   String_go (fst ex_equal ! 1) (snd ex_equal) = Inr [''b'', ''a''] \<and>
   String_go (fst ex_equal ! 2) (snd ex_equal) = Inr [''a''] \<and>
   String_go (fst ex_equal ! 3) (snd ex_equal) = Inr [''a'', ''a''] \<and>
   Equal (fst ex_equal ! 0) (fst ex_equal ! 0) (snd ex_equal) = Inr True \<and>
   Equal (fst ex_equal ! 0) (fst ex_equal ! 1) (snd ex_equal) = Inr False \<and>
   Equal (fst ex_equal ! 1) (fst ex_equal ! 0) (snd ex_equal) = Inr False \<and>
   Equal (fst ex_equal ! 2) (fst ex_equal ! 3) (snd ex_equal) = Inr False"
proof -
  have ab: "String_go (fst ex_equal ! 0) (snd ex_equal) = Inr [''a'', ''b'']"
    and ba: "String_go (fst ex_equal ! 1) (snd ex_equal) = Inr [''b'', ''a'']"
    and a: "String_go (fst ex_equal ! 2) (snd ex_equal) = Inr [''a'']"
    and aa: "String_go (fst ex_equal ! 3) (snd ex_equal) = Inr [''a'', ''a'']"
    by (simp_all add: ex_equal_def store_defs)
  from Equal_refl_sym_order_length[OF ab ba, of "''a''" "''b''"]
    Equal_refl_sym_order_length[OF ab ab, of "''a''" "''b''"]
    Equal_refl_sym_order_length[OF a aa, of "''a''"]
    ab ba a aa
  show ?thesis by auto
qed

lemma New_New_String:
  assumes "New toString v l h = (e, h1)" and "New toString v l2 h1 = (e2, h2)"
  shows "String_go e h2 = Inr [toString v]" and "String_go e2 h2 = Inr [toString v]"
    and "Length e = l" and "Length e2 = l2"
  using assms
  by (auto simp: New_def NewStrSlice_def lit_go_def new_cell_def String_go_def elems_def
      nth_append Length_def)

text \<open>
  Claim C10. \<open>Equal\<close> compares the backing sequences only and ignores the cached
  length: whatever is written into the two \<open>length\<close> fields, the answer is the one for the
  original lists, namely whether the two backing sequences are equal. So two lists with
  equal backing sequences are \<open>Equal\<close> even when their cached lengths differ, two lists
  with different backing sequences are not \<open>Equal\<close> even when their cached lengths agree,
  and two lists built by \<open>New\<close> from the same value with any two lengths \<open>l\<close> and \<open>l2\<close>
  are \<open>Equal\<close>.
\<close>

theorem Equal_ignores_cached_length:
  assumes "String_go d h = Inr xs" and "String_go d2 h = Inr ys"
  shows "Equal (d\<lparr>length_go := l\<rparr>) (d2\<lparr>length_go := l2\<rparr>) h = Equal d d2 h \<and>
         Equal (d\<lparr>length_go := l\<rparr>) (d2\<lparr>length_go := l2\<rparr>) h = Inr (xs = ys) \<and>
         Equal d d2 h = Inr (xs = ys) \<and>
         (New toString v l h = (e, h1) \<and> New toString v l2 h1 = (e2, h2) \<longrightarrow>
            Length e = l \<and> Length e2 = l2 \<and> Equal e e2 h2 = Inr True)"
proof -
  have "String_go (d\<lparr>length_go := l\<rparr>) h = Inr xs" "String_go (d2\<lparr>length_go := l2\<rparr>) h = Inr ys"
    using assms by (simp_all add: String_go_def)
  then have "Equal (d\<lparr>length_go := l\<rparr>) (d2\<lparr>length_go := l2\<rparr>) h = Inr (xs = ys)"
    by (rule Equal_elems)
  moreover have "Equal d d2 h = Inr (xs = ys)"
    using assms by (rule Equal_elems)
  moreover have "Length e = l \<and> Length e2 = l2 \<and> Equal e e2 h2 = Inr True"
    if "New toString v l h = (e, h1)" "New toString v l2 h1 = (e2, h2)"
    using New_New_String[OF that] Equal_elems[of e h2 "[toString v]" e2 "[toString v]"] by simp
  ultimately show ?thesis by simp
qed

theorem Equal_ignores_cached_length_witness:
  "String_go (fst ex_stale ! 0) ex_stale_heap = Inr [''a'', ''b''] \<and>
   String_go (fst ex_stale ! 1) ex_stale_heap = Inr [''a'', ''b''] \<and>
   Length (fst ex_stale ! 0) = 1 \<and> Length (fst ex_stale ! 1) = 2 \<and>
   Equal (fst ex_stale ! 0) (fst ex_stale ! 1) ex_stale_heap = Inr True \<and>
   String_go (fst ex_stale ! 0) (snd ex_stale) = Inr [''a''] \<and>
   String_go (fst ex_stale ! 1) (snd ex_stale) = Inr [''a'', ''b''] \<and>
   Length ((fst ex_stale ! 0)\<lparr>length_go := 2\<rparr>) = Length (fst ex_stale ! 1) \<and>
   Equal ((fst ex_stale ! 0)\<lparr>length_go := 2\<rparr>) ((fst ex_stale ! 1)\<lparr>length_go := 2\<rparr>)
     (snd ex_stale) = Inr False \<and>
   Equal (fst ex_stale ! 0) (fst ex_stale ! 1) (snd ex_stale) = Inr False \<and>
   Length (fst ex_new1) = 1 \<and> Length (fst ex_new5) = 5 \<and>
   Equal (fst ex_new1) (fst ex_new5) (snd ex_new5) = Inr True"
proof -
  have 1: "String_go (fst ex_stale ! 0) ex_stale_heap = Inr [''a'', ''b'']"
    and 2: "String_go (fst ex_stale ! 1) ex_stale_heap = Inr [''a'', ''b'']"
    by (simp_all add: ex_stale_def ex_stale_heap_def store_defs Append_def append_go_def
        store_def exact_fit_def Let_def)
  have 3: "Length (fst ex_stale ! 0) = 1" "Length (fst ex_stale ! 1) = 2"
    "Length ((fst ex_stale ! 0)\<lparr>length_go := 2\<rparr>) = Length (fst ex_stale ! 1)"
    by (simp_all add: ex_stale_def store_defs Length_def)
  have 4: "New id ''7'' 1 ex_stale_heap = (fst ex_new1, snd ex_new1)"
    and 5: "New id ''7'' 5 (snd ex_new1) = (fst ex_new5, snd ex_new5)"
    by (simp_all add: ex_new1_def ex_new5_def)
  have 6: "String_go (fst ex_stale ! 0) (snd ex_stale) = Inr [''a'']"
    and 7: "String_go (fst ex_stale ! 1) (snd ex_stale) = Inr [''a'', ''b'']"
    by (simp_all add: ex_stale_def store_defs)
  from Equal_ignores_cached_length[OF 1 2, of 1 5 id "''7''"
      "fst ex_new1" "snd ex_new1" "fst ex_new5" "snd ex_new5"]
    Equal_ignores_cached_length[OF 6 7, of 2 2 id "''7''"
      "fst ex_new1" "snd ex_new1" "fst ex_new5" "snd ex_new5"]
    1 2 3 4 5 6 7
  show ?thesis by simp
qed

section \<open>The mutating operations\<close>

lemma elems_store [simp]: "elems (store h a s) t = elems h t"
  by (simp add: elems_def store_def)

lemma wf_slice_store [simp]: "wf_slice (store h a s) t = wf_slice h t"
  by (simp add: wf_slice_def store_def)

lemma cells_store: "a < length (cells h) \<Longrightarrow> cells (store h a s) ! a = s"
  by (simp add: store_def)

lemma length_cells_store [simp]: "length (cells (store h a s)) = length (cells h)"
  by (simp add: store_def)

lemma wf_List_cases:
  assumes "wf_List h d"
  obtains a where "value_go d = Some a" and "a < length (cells h)" and "wf_slice h (cells h ! a)"
  using assms by (auto simp: wf_List_def split: option.splits)

lemma true_size_String:
  "wf_List h d \<Longrightarrow> String_go d h = Inr xs \<Longrightarrow> true_size h d = length xs"
  by (auto simp: wf_List_def String_go_def true_size_def length_elems split: option.splits)

text \<open>Storing a well-formed slice through the pointer of a list.\<close>

lemma store_result:
  assumes "value_go d = Some a" and "a < length (cells h')" and "wf_slice h' s'"
  shows "wf_List (store h' a s') d" and "String_go d (store h' a s') = Inr (elems h' s')"
  using assms by (simp_all add: wf_List_def String_go_def cells_store)

lemma Extend_effect:
  assumes "wf_List h d" and "String_go d h = Inr xs"
  shows "\<exists>h'. Extend g d subs h = Inr h' \<and> wf_List h' d \<and> String_go d h' = Inr (xs @ subs)"
proof -
  from assms(1) obtain a where a: "value_go d = Some a" "a < length (cells h)"
    "wf_slice h (cells h ! a)" by (rule wf_List_cases)
  obtain s' h' where app: "append_go g h (cells h ! a) subs = (s', h')"
    by fastforce
  from a(3) app have "wf_slice h' s'" and "elems h' s' = elems h (cells h ! a) @ subs"
    and "cells h' = cells h"
    by (rule append_go_wf, rule append_go_elems, simp add: append_go_cells)
  moreover from assms(2) a(1) have "xs = elems h (cells h ! a)"
    by (simp add: String_go_def)
  ultimately show ?thesis
    using a(1,2) app store_result[of d a h' s'] by (simp add: Extend_def)
qed

lemma Append_Extend: "Append g toString d v h = Extend g d [toString v] h"
  by (simp add: Append_def Extend_def Let_def split: option.split)

lemma Append_effect:
  assumes "wf_List h d" and "String_go d h = Inr xs"
  shows "\<exists>h'. Append g toString d v h = Inr h' \<and> wf_List h' d \<and>
           String_go d h' = Inr (xs @ [toString v])"
  using Extend_effect[OF assms] by (simp add: Append_Extend)

lemma reslice_wf:
  assumes "wf_slice h s" and "reslice s lo hi = Inr t"
  shows "wf_slice h t"
  using assms by (auto simp: reslice_def wf_slice_def split: if_splits)

lemma reslice_elems:
  assumes "wf_slice h s" and "reslice s lo hi = Inr t" and "hi \<le> int (s_len s)"
  shows "elems h t = take (nat hi - nat lo) (drop (nat lo) (elems h s))"
proof -
  from assms(2) have t: "t = \<lparr>s_arr = s_arr s, s_off = s_off s + nat lo,
      s_len = nat hi - nat lo, s_cap = s_cap s - nat lo\<rparr>" and "0 \<le> lo" "lo \<le> hi"
    by (auto simp: reslice_def split: if_splits)
  with assms(3) have "nat hi - nat lo \<le> s_len s - nat lo"
    by linarith
  then show ?thesis
    by (simp add: t elems_def drop_take min_def add.commute)
qed



lemma sint_succ:
  fixes w :: go_int
  assumes "sint w < 2 ^ 63 - 1"
  shows "sint (w + 1) = sint w + 1"
proof -
  have "- (2 ^ 63) \<le> sint w"
    using sint_ge[of w] by simp
  with assms have "signed_take_bit 63 (sint w + 1) = sint w + 1"
    by (intro signed_take_bit_int_eq_self) simp_all
  then show ?thesis
    by (simp add: sint_word_ariths)
qed

lemma sint_succ_max:
  fixes w :: go_int
  assumes "\<not> sint w < 2 ^ 63 - 1"
  shows "sint (w + 1) < 0"
proof -
  have "sint w < 2 ^ 63"
    using sint_lt[of w] by simp
  with assms have "sint w = 2 ^ 63 - 1" by simp
  then have "sint (w + 1) = signed_take_bit 63 (2 ^ 63 :: int)"
    by (simp add: sint_word_ariths)
  also have "\<dots> < 0"
    by (simp add: signed_take_bit_eq_take_bit_minus take_bit_eq_mod)
  finally show ?thesis .
qed


text \<open>\<open>Pop\<close>, with \<open>w\<close> the index after the adjustment of a negative \<open>idx\<close>.\<close>

lemma Pop_effect:
  assumes "wf_List h d" and "String_go d h = Inr xs" and "length xs < 2 ^ 63"
    and w: "w = (if idx <s 0 then length_go d + idx else idx)"
    and "0 \<le> sint w" and "sint w < int (length xs)"
  shows "\<exists>h'. Pop g d idx h = Inr h' \<and> wf_List h' d \<and>
           String_go d h' = Inr (take (nat (sint w)) xs @ drop (Suc (nat (sint w))) xs)"
proof -
  from assms(1) obtain a where a: "value_go d = Some a" "a < length (cells h)"
    "wf_slice h (cells h ! a)" by (rule wf_List_cases)
  define fats where "fats = cells h ! a"
  define i where "i = nat (sint w)"
  from assms(2) a(1) have xs: "xs = elems h fats"
    by (simp add: String_go_def fats_def)
  with a(3) have len: "length xs = s_len fats" and cap: "s_len fats \<le> s_cap fats"
    by (simp_all add: length_elems fats_def wf_slice_def)
  from assms(5,6) have i: "sint w = int i" "i < length xs"
    by (simp_all add: i_def)
  with assms(3) have w1: "sint (w + 1) = int (Suc i)"
    using sint_succ[of w] by simp
  obtain front where front: "reslice fats 0 (sint w) = Inr front"
    using i len cap by (simp add: reslice_def)
  obtain rear where rear: "reslice fats (sint (w + 1)) (int (s_len fats)) = Inr rear"
    using i len cap w1 by (simp add: reslice_def)
  have wf: "wf_slice h fats" using a(3) by (simp add: fats_def)
  have ef: "elems h front = take i xs"
    using reslice_elems[OF wf front] i len by (simp add: xs)
  have "nat (sint (w + 1)) = Suc i"
    using w1 by simp
  then have eb: "elems h rear = drop (Suc i) xs"
    using reslice_elems[OF wf rear] i len by (simp add: xs)
  obtain s' h' where app: "append_go g h front (elems h rear) = (s', h')"
    by fastforce
  have wff: "wf_slice h front" using wf front by (rule reslice_wf)
  from wff app have "wf_slice h' s'" and "elems h' s' = elems h front @ elems h rear"
    and "cells h' = cells h"
    by (rule append_go_wf, rule append_go_elems, simp add: append_go_cells)
  with a(1,2) store_result[of d a h' s'] ef eb
  have "wf_List (store h' a s') d" "String_go d (store h' a s') = Inr (take i xs @ drop (Suc i) xs)"
    by simp_all
  moreover have "Pop g d idx h = Inr (store h' a s')"
    using a(1) front rear app by (simp add: Pop_def Let_def fats_def[symmetric] w[symmetric])
  ultimately show ?thesis by (simp add: i_def)
qed

lemma Pop_panic:
  assumes "wf_List h d" and "String_go d h = Inr xs"
    and w: "w = (if idx <s 0 then length_go d + idx else idx)"
    and "\<not> (0 \<le> sint w \<and> sint w < int (length xs))"
  shows "Pop g d idx h = Inl OutOfRange"
proof -
  from assms(1) obtain a where a: "value_go d = Some a" "a < length (cells h)"
    "wf_slice h (cells h ! a)" by (rule wf_List_cases)
  define fats where "fats = cells h ! a"
  from assms(2) a(1) have xs: "xs = elems h fats"
    by (simp add: String_go_def fats_def)
  with a(3) have len: "length xs = s_len fats"
    by (simp add: length_elems fats_def)
  show ?thesis
  proof (cases "reslice fats 0 (sint w)")
    case (Inl e)
    then have "e = OutOfRange" by (auto simp: reslice_def split: if_splits)
    with Inl a(1) show ?thesis
      by (simp add: Pop_def Let_def fats_def[symmetric] w[symmetric])
  next
    case (Inr front)
    then have "0 \<le> sint w" by (auto simp: reslice_def split: if_splits)
    with assms(4) len have ge: "int (s_len fats) \<le> sint w" by simp
    have "sint (w + 1) < 0 \<or> int (s_len fats) < sint (w + 1)"
    proof (cases "sint w < 2 ^ 63 - 1")
      case True
      with ge sint_succ[of w] show ?thesis by simp
    next
      case False
      then show ?thesis using sint_succ_max[of w] by simp
    qed
    then have "reslice fats (sint (w + 1)) (int (s_len fats)) = Inl OutOfRange"
      by (auto simp: reslice_def)
    with Inr a(1) show ?thesis
      by (simp add: Pop_def Let_def fats_def[symmetric] w[symmetric])
  qed
qed

text \<open>
  Claim C2. \<open>Pop(idx)\<close> removes the element at the effective index, which for a negative
  \<open>idx\<close> is the cached length plus \<open>idx\<close> (in 64-bit arithmetic) whatever the true size
  of the backing sequence is, and is \<open>idx\<close> otherwise; an effective index outside the
  backing sequence is a panic. On a 3-element sequence whose cached length is 3,
  \<open>Pop(-1)\<close> removes the last element. The size of a Go slice fits \<open>int\<close>, hence
  the bound on \<open>length xs\<close>.
\<close>

theorem Pop_removes_at_effective_index:
  assumes "wf_List h d" and "String_go d h = Inr xs" and "length xs < 2 ^ 63"
    and "i = sint (if idx <s 0 then Length d + idx else idx)"
  shows "(0 \<le> i \<and> i < int (length xs) \<longrightarrow>
            (\<exists>h'. Pop g d idx h = Inr h' \<and>
                   String_go d h' = Inr (take (nat i) xs @ drop (Suc (nat i)) xs))) \<and>
         (\<not> (0 \<le> i \<and> i < int (length xs)) \<longrightarrow> Pop g d idx h = Inl OutOfRange) \<and>
         (length xs = 3 \<and> Length d = 3 \<and> idx = - 1 \<longrightarrow>
            (\<exists>h'. Pop g d idx h = Inr h' \<and> String_go d h' = Inr (butlast xs)))"
proof -
  define w where "w = (if idx <s 0 then length_go d + idx else idx)"
  have i: "i = sint w" using assms(4) by (simp add: w_def Length_def)
  have ok: "\<exists>h'. Pop g d idx h = Inr h' \<and>
      String_go d h' = Inr (take (nat i) xs @ drop (Suc (nat i)) xs)"
    if "0 \<le> i \<and> i < int (length xs)"
    using Pop_effect[OF assms(1-3) w_def] that unfolding i by blast
  have bad: "Pop g d idx h = Inl OutOfRange" if "\<not> (0 \<le> i \<and> i < int (length xs))"
    using Pop_panic[OF assms(1,2) w_def] that unfolding i by blast
  have last: "\<exists>h'. Pop g d idx h = Inr h' \<and> String_go d h' = Inr (butlast xs)"
    if "length xs = 3 \<and> Length d = 3 \<and> idx = - 1"
  proof -
    from that have "w = 2" by (simp add: w_def Length_def)
    then have "i = 2" using i by simp
    moreover have "take 2 xs @ drop 3 xs = butlast xs"
      using that by (simp add: butlast_conv_take)
    ultimately show ?thesis using ok that by (simp add: numeral_3_eq_3)
  qed
  from ok bad last show ?thesis by blast
qed

theorem Pop_removes_at_effective_index_witness:
  "wf_List (snd ex_pop) (fst ex_pop) \<and>
   String_go (fst ex_pop) (snd ex_pop) = Inr [''a'', ''b'', ''c''] \<and>
   Length (fst ex_pop) = 3 \<and>
   (\<exists>h'. Pop exact_fit (fst ex_pop) (- 1) (snd ex_pop) = Inr h' \<and>
          String_go (fst ex_pop) h' = Inr [''a'', ''b'']) \<and>
   (\<exists>h'. Pop exact_fit (fst ex_pop) 0 (snd ex_pop) = Inr h' \<and>
          String_go (fst ex_pop) h' = Inr [''b'', ''c'']) \<and>
   Pop exact_fit (fst ex_pop) 3 (snd ex_pop) = Inl OutOfRange \<and>
   String_go (fst ex_stale ! 0) ex_stale_heap = Inr [''a'', ''b''] \<and>
   Length (fst ex_stale ! 0) = 1 \<and>
   (\<exists>h'. Pop exact_fit (fst ex_stale ! 0) (- 1) ex_stale_heap = Inr h' \<and>
          String_go (fst ex_stale ! 0) h' = Inr [''b''])"
proof -
  have wf: "wf_List (snd ex_pop) (fst ex_pop)"
    and xs: "String_go (fst ex_pop) (snd ex_pop) = Inr [''a'', ''b'', ''c'']"
    and l: "Length (fst ex_pop) = 3"
    by (simp_all add: ex_pop_def store_defs wf_List_def wf_slice_def Length_def)
  have wf': "wf_List ex_stale_heap (fst ex_stale ! 0)"
    and xs': "String_go (fst ex_stale ! 0) ex_stale_heap = Inr [''a'', ''b'']"
    and l': "Length (fst ex_stale ! 0) = 1"
    by (simp_all add: ex_stale_def ex_stale_heap_def store_defs wf_List_def wf_slice_def
        Length_def Append_def append_go_def store_def exact_fit_def Let_def)
  have small: "length [''a'', ''b'', ''c''] < 2 ^ 63" "length [''a'', ''b''] < 2 ^ 63"
    by simp_all
  from Pop_removes_at_effective_index[OF wf xs small(1) refl, of "- 1" exact_fit]
    Pop_removes_at_effective_index[OF wf xs small(1) refl, of 0 exact_fit]
    Pop_removes_at_effective_index[OF wf xs small(1) refl, of 3 exact_fit]
    Pop_removes_at_effective_index[OF wf' xs' small(2) refl, of "- 1" exact_fit]
    wf xs l xs' l'
  show ?thesis by simp
qed

lemma write_at_single: "k < length A \<Longrightarrow> write_at A k [v] = A[k := v]"
  by (simp add: write_at_def upd_conv_take_nth_drop)

text \<open>What \<open>append(fats[:i], str)\<close> does to the elements of \<open>fats\<close> itself.\<close>

lemma append_front_elems:
  assumes wf: "wf_slice h fats" and i: "i \<le> s_len fats"
    and front: "reslice fats 0 (int i) = Inr front"
    and app: "append_go g h front [str] = (res, h1)"
  shows "elems h1 fats = (elems h fats)[i := str]"
proof -
  from front have fr: "front = \<lparr>s_arr = s_arr fats, s_off = s_off fats, s_len = i, s_cap = s_cap fats\<rparr>"
    by (auto simp: reslice_def split: if_splits)
  show ?thesis
  proof (cases "Suc i \<le> s_cap fats")
    case True
    with wf have arr: "s_arr fats < length (arrays h)"
      and bound: "s_off fats + s_cap fats \<le> length (arrays h ! s_arr fats)"
      by (auto simp: wf_slice_def)
    from True app have h1: "h1 = h\<lparr>arrays := (arrays h)[s_arr fats :=
        write_at (arrays h ! s_arr fats) (s_off fats + i) [str]]\<rparr>"
      by (simp add: append_go_def fr)
    from True bound have "s_off fats + i < length (arrays h ! s_arr fats)" by simp
    then have "write_at (arrays h ! s_arr fats) (s_off fats + i) [str] =
        (arrays h ! s_arr fats)[s_off fats + i := str]"
      by (rule write_at_single)
    with arr h1 show ?thesis
      by (simp add: elems_def take_update_swap drop_update_swap)
  next
    case False
    with wf i have eq: "i = s_len fats" "s_len fats = s_cap fats"
      by (auto simp: wf_slice_def)
    from False app have h1: "\<exists>new. arrays h1 = arrays h @ [new]"
      by (auto simp: append_go_def fr Let_def)
    have "elems h1 fats = elems h fats"
    proof (cases "s_cap fats = 0")
      case True
      with eq show ?thesis by (simp add: elems_def)
    next
      case False
      with wf have "s_arr fats < length (arrays h)" by (auto simp: wf_slice_def)
      with h1 show ?thesis by (auto simp: elems_def nth_append)
    qed
    moreover have "length (elems h fats) = i"
      using wf eq by (simp add: length_elems)
    ultimately show ?thesis by (simp add: list_update_beyond)
  qed
qed

lemma Insert_effect:
  assumes "wf_List h d" and "String_go d h = Inr xs"
    and "0 \<le> sint idx" and "sint idx \<le> int (length xs)"
  shows "\<exists>h'. Insert g toString d idx v h = Inr h' \<and> wf_List h' d \<and>
           String_go d h' = Inr (take (nat (sint idx)) xs @ [toString v] @
              drop (nat (sint idx)) (xs[nat (sint idx) := toString v]))"
proof -
  from assms(1) obtain a where a: "value_go d = Some a" "a < length (cells h)"
    "wf_slice h (cells h ! a)" by (rule wf_List_cases)
  define fats where "fats = cells h ! a"
  define i where "i = nat (sint idx)"
  define str where "str = toString v"
  have wf: "wf_slice h fats" using a(3) by (simp add: fats_def)
  from assms(2) a(1) have xs: "xs = elems h fats"
    by (simp add: String_go_def fats_def)
  with wf have len: "length xs = s_len fats" and cap: "s_len fats \<le> s_cap fats"
    by (simp_all add: length_elems wf_slice_def)
  from assms(3,4) have i: "sint idx = int i" "i \<le> s_len fats"
    by (simp_all add: i_def len)
  obtain front where front: "reslice fats 0 (int i) = Inr front"
    using i cap by (simp add: reslice_def)
  obtain res h1 where app1: "append_go g h front [str] = (res, h1)"
    by fastforce
  obtain rear where rear: "reslice fats (int i) (int (s_len fats)) = Inr rear"
    using i cap by (simp add: reslice_def)
  obtain s' h2 where app2: "append_go g h1 res (elems h1 rear) = (s', h2)"
    by fastforce
  have wff: "wf_slice h front" using wf front by (rule reslice_wf)
  have ef: "elems h front = take i xs"
    using reslice_elems[OF wf front] i by (simp add: xs)
  from wff app1 have wfr: "wf_slice h1 res" and er: "elems h1 res = elems h front @ [str]"
    and c1: "cells h1 = cells h"
    by (rule append_go_wf, rule append_go_elems, simp add: append_go_cells)
  have wf1: "wf_slice h1 fats"
    using wff app1 wf by (rule append_go_wf_other)
  have "elems h1 fats = xs[i := str]"
    using append_front_elems[OF wf i(2) front app1] by (simp add: xs)
  then have eb: "elems h1 rear = drop i (xs[i := str])"
    using reslice_elems[OF wf1 rear] len by simp
  from wfr app2 have "wf_slice h2 s'" and "elems h2 s' = elems h1 res @ elems h1 rear"
    and "cells h2 = cells h1"
    by (rule append_go_wf, rule append_go_elems, simp add: append_go_cells)
  with a(1,2) c1 store_result[of d a h2 s'] er ef eb
  have "wf_List (store h2 a s') d"
    "String_go d (store h2 a s') = Inr (take i xs @ [str] @ drop i (xs[i := str]))"
    by simp_all
  moreover have "Insert g toString d idx v h = Inr (store h2 a s')"
    using a(1) front rear app1 app2 i
    by (simp add: Insert_def Let_def fats_def[symmetric] str_def[symmetric])
  ultimately show ?thesis by (simp add: i_def str_def)
qed

lemma Insert_panic:
  assumes "wf_List h d" and "String_go d h = Inr xs"
    and "\<not> (0 \<le> sint idx \<and> sint idx \<le> int (length xs))"
  shows "Insert g toString d idx v h = Inl OutOfRange"
proof -
  from assms(1) obtain a where a: "value_go d = Some a" "a < length (cells h)"
    "wf_slice h (cells h ! a)" by (rule wf_List_cases)
  from assms(2) a(1) have "xs = elems h (cells h ! a)"
    by (simp add: String_go_def)
  with a(3) have len: "length xs = s_len (cells h ! a)"
    by (simp add: length_elems)
  with assms(3) have "reslice (cells h ! a) 0 (sint idx) = Inl OutOfRange \<or>
      reslice (cells h ! a) (sint idx) (int (s_len (cells h ! a))) = Inl OutOfRange"
    by (auto simp: reslice_def)
  with a(1) show ?thesis
    by (auto simp: Insert_def Let_def split: sum.splits prod.splits)
       (auto simp: reslice_def split: if_splits)
qed

lemma at_go_elems:
  "wf_slice h s \<Longrightarrow> j < s_len s \<Longrightarrow> at_go h s j = elems h s ! j"
  by (auto simp: wf_slice_def at_go_def elems_def)

text \<open>
  One removal step of the loop of \<open>Remove\<close>: \<open>append(fats[:i], fats[(i+1):]...)\<close> at an
  index \<open>i < len(fats)\<close> never panics, writes in place, and yields the header of \<open>fats\<close>
  shortened by one.
\<close>

lemma Remove_step:
  assumes wf: "wf_slice h fats" and i: "i < s_len fats"
  shows "\<exists>front rear h1.
           reslice fats 0 (int i) = Inr front \<and>
           reslice fats (int i + 1) (int (s_len fats)) = Inr rear \<and>
           append_go g h front (elems h rear) = (fats\<lparr>s_len := s_len fats - 1\<rparr>, h1) \<and>
           wf_slice h1 fats \<and> cells h1 = cells h"
proof -
  from wf have cap: "s_len fats \<le> s_cap fats" by (simp add: wf_slice_def)
  define front where "front = \<lparr>s_arr = s_arr fats, s_off = s_off fats, s_len = i, s_cap = s_cap fats\<rparr>"
  define rear where "rear = \<lparr>s_arr = s_arr fats, s_off = s_off fats + Suc i,
      s_len = s_len fats - Suc i, s_cap = s_cap fats - Suc i\<rparr>"
  have front: "reslice fats 0 (int i) = Inr front"
    using i cap by (simp add: reslice_def front_def)
  have rear: "reslice fats (int i + 1) (int (s_len fats)) = Inr rear"
    using i cap by (simp add: reslice_def rear_def nat_add_distrib)
  have wff: "wf_slice h front" using wf front by (rule reslice_wf)
  have "wf_slice h rear" using wf rear by (rule reslice_wf)
  then have lr: "length (elems h rear) = s_len fats - Suc i"
    by (simp add: length_elems rear_def)
  obtain s' h1 where app: "append_go g h front (elems h rear) = (s', h1)"
    by fastforce
  moreover have "s_len front + length (elems h rear) \<le> s_cap front"
    using lr i cap by (simp add: front_def)
  ultimately have "s' = front\<lparr>s_len := s_len front + length (elems h rear)\<rparr>"
    by (simp add: append_go_def Let_def)
  with lr have "s' = front\<lparr>s_len := i + (s_len fats - Suc i)\<rparr>"
    by (simp add: front_def)
  with i have s': "s' = fats\<lparr>s_len := s_len fats - 1\<rparr>"
    by (simp add: front_def)
  have "wf_slice h1 fats" using wff app wf by (rule append_go_wf_other)
  moreover have "cells h1 = cells h" using app by (rule append_go_cells)
  ultimately show ?thesis using front rear app s' by blast
qed

text \<open>
  The loop of \<open>Remove\<close> never panics, and the cell of the list ends up holding either
  what it held or the shortened header.
\<close>

lemma Remove_loop_shape:
  assumes "wf_slice h fats" and "a < length (cells h)" and "i + k = s_len fats"
  shows "\<exists>h'. Remove_loop g a fats str i k h = Inr h' \<and> wf_slice h' fats \<and>
           length (cells h') = length (cells h) \<and>
           (h' = h \<or> cells h' ! a = fats\<lparr>s_len := s_len fats - 1\<rparr>)"
  using assms
proof (induction k arbitrary: i h)
  case 0
  then show ?case by simp
next
  case (Suc k)
  show ?case
  proof (cases "at_go h fats i = str")
    case False
    with Suc.IH[of h "Suc i"] Suc.prems show ?thesis by simp
  next
    case True
    from Suc.prems have "i < s_len fats" by simp
    with Remove_step[OF Suc.prems(1), of i g]
    obtain front rear h1 where st: "reslice fats 0 (int i) = Inr front"
      "reslice fats (int i + 1) (int (s_len fats)) = Inr rear"
      "append_go g h front (elems h rear) = (fats\<lparr>s_len := s_len fats - 1\<rparr>, h1)"
      "wf_slice h1 fats" "cells h1 = cells h"
      by blast
    define h2 where "h2 = store h1 a (fats\<lparr>s_len := s_len fats - 1\<rparr>)"
    have h2: "wf_slice h2 fats" "a < length (cells h2)" "Suc i + k = s_len fats"
      "cells h2 ! a = fats\<lparr>s_len := s_len fats - 1\<rparr>" "length (cells h2) = length (cells h)"
      using st(4,5) Suc.prems by (simp_all add: h2_def cells_store)
    from Suc.IH[OF h2(1-3)] obtain h' where h':
      "Remove_loop g a fats str (Suc i) k h2 = Inr h'" "wf_slice h' fats"
      "length (cells h') = length (cells h2)"
      "h' = h2 \<or> cells h' ! a = fats\<lparr>s_len := s_len fats - 1\<rparr>"
      by blast
    have "Remove_loop g a fats str i (Suc k) h = Inr h'"
      using True st(1-3) h'(1) by (simp add: h2_def)
    with h' h2(4,5) show ?thesis by auto
  qed
qed

lemma Remove_loop_absent:
  assumes "\<forall>j. i \<le> j \<and> j < i + k \<longrightarrow> at_go h fats j \<noteq> str"
  shows "Remove_loop g a fats str i k h = Inr h"
  using assms
proof (induction k arbitrary: i)
  case 0
  then show ?case by simp
next
  case (Suc k)
  then have "at_go h fats i \<noteq> str" by simp
  moreover have "Remove_loop g a fats str (Suc i) k h = Inr h"
    using Suc.prems by (intro Suc.IH) simp
  ultimately show ?case by simp
qed

lemma Remove_loop_present:
  assumes "wf_slice h fats" and "a < length (cells h)" and "i + k = s_len fats"
    and "i \<le> j" and "j < s_len fats" and "at_go h fats j = str"
  shows "\<exists>h'. Remove_loop g a fats str i k h = Inr h' \<and> wf_slice h' fats \<and>
           length (cells h') = length (cells h) \<and>
           cells h' ! a = fats\<lparr>s_len := s_len fats - 1\<rparr>"
  using assms
proof (induction k arbitrary: i)
  case 0
  then show ?case by simp
next
  case (Suc k)
  show ?case
  proof (cases "at_go h fats i = str")
    case False
    with Suc.prems have "Suc i \<le> j" by (cases "i = j") auto
    with Suc.IH[of "Suc i"] Suc.prems False show ?thesis by simp
  next
    case True
    from Suc.prems have "i < s_len fats" by simp
    with Remove_step[OF Suc.prems(1), of i g]
    obtain front rear h1 where st: "reslice fats 0 (int i) = Inr front"
      "reslice fats (int i + 1) (int (s_len fats)) = Inr rear"
      "append_go g h front (elems h rear) = (fats\<lparr>s_len := s_len fats - 1\<rparr>, h1)"
      "wf_slice h1 fats" "cells h1 = cells h"
      by blast
    define h2 where "h2 = store h1 a (fats\<lparr>s_len := s_len fats - 1\<rparr>)"
    have h2: "wf_slice h2 fats" "a < length (cells h2)" "Suc i + k = s_len fats"
      "cells h2 ! a = fats\<lparr>s_len := s_len fats - 1\<rparr>" "length (cells h2) = length (cells h)"
      using st(4,5) Suc.prems by (simp_all add: h2_def cells_store)
    from Remove_loop_shape[OF h2(1-3), of g str] obtain h' where h':
      "Remove_loop g a fats str (Suc i) k h2 = Inr h'" "wf_slice h' fats"
      "length (cells h') = length (cells h2)"
      "h' = h2 \<or> cells h' ! a = fats\<lparr>s_len := s_len fats - 1\<rparr>"
      by blast
    have "Remove_loop g a fats str i (Suc k) h = Inr h'"
      using True st(1-3) h'(1) by (simp add: h2_def)
    with h' h2(4,5) show ?thesis by auto
  qed
qed

lemma Remove_absent:
  assumes "wf_List h d" and "String_go d h = Inr xs" and "toString v \<notin> set xs"
  shows "Remove g toString d v h = Inr h"
proof -
  from assms(1) obtain a where a: "value_go d = Some a" "a < length (cells h)"
    "wf_slice h (cells h ! a)" by (rule wf_List_cases)
  from assms(2) a(1) have xs: "xs = elems h (cells h ! a)"
    by (simp add: String_go_def)
  with a(3) have len: "length xs = s_len (cells h ! a)"
    by (simp add: length_elems)
  have "at_go h (cells h ! a) j \<noteq> toString v" if "j < s_len (cells h ! a)" for j
  proof -
    from that len have "xs ! j \<in> set xs" by simp
    with assms(3) have "xs ! j \<noteq> toString v" by metis
    with that a(3) show ?thesis by (simp add: at_go_elems xs)
  qed
  then have "\<forall>j. 0 \<le> j \<and> j < 0 + s_len (cells h ! a) \<longrightarrow> at_go h (cells h ! a) j \<noteq> toString v"
    by simp
  then have "Remove_loop g a (cells h ! a) (toString v) 0 (s_len (cells h ! a)) h = Inr h"
    by (rule Remove_loop_absent)
  with a(1) show ?thesis by (simp add: Remove_def Let_def)
qed

lemma Remove_present:
  assumes "wf_List h d" and "String_go d h = Inr xs" and "toString v \<in> set xs"
  shows "\<exists>h'. Remove g toString d v h = Inr h' \<and> wf_List h' d \<and>
           true_size h' d = length xs - 1"
proof -
  from assms(1) obtain a where a: "value_go d = Some a" "a < length (cells h)"
    "wf_slice h (cells h ! a)" by (rule wf_List_cases)
  define fats where "fats = cells h ! a"
  have wf: "wf_slice h fats" using a(3) by (simp add: fats_def)
  from assms(2) a(1) have xs: "xs = elems h fats"
    by (simp add: String_go_def fats_def)
  with wf have len: "length xs = s_len fats" by (simp add: length_elems)
  from assms(3) obtain j where j: "j < length xs" "xs ! j = toString v"
    by (auto simp: in_set_conv_nth)
  with wf len have "at_go h fats j = toString v"
    by (simp add: at_go_elems xs)
  with Remove_loop_present[OF wf a(2), of 0 "s_len fats" j "toString v" g] j(1) len
  obtain h' where h': "Remove_loop g a fats (toString v) 0 (s_len fats) h = Inr h'"
    "wf_slice h' fats" "length (cells h') = length (cells h)"
    "cells h' ! a = fats\<lparr>s_len := s_len fats - 1\<rparr>"
    by auto
  from h'(2) have "wf_slice h' (fats\<lparr>s_len := s_len fats - 1\<rparr>)"
    by (auto simp: wf_slice_def)
  with h' a(1,2) len have "wf_List h' d" "true_size h' d = length xs - 1"
    by (simp_all add: wf_List_def true_size_def)
  moreover have "Remove g toString d v h = Inr h'"
    using a(1) h'(1) by (simp add: Remove_def Let_def fats_def)
  ultimately show ?thesis by simp
qed

text \<open>
  Claim C3. Every mutating operation (\<open>Append\<close>, \<open>Extend\<close>, \<open>Insert\<close>, \<open>Remove\<close>,
  \<open>Pop\<close>) changes the backing sequence and returns a new store only: the list value
  \<open>d\<close>, and with it \<open>Length d\<close>, is the same before and after, while the true size has
  changed. So a cached length that agreed with the true size before the mutation
  disagrees with it afterwards.
\<close>

theorem mutations_leave_cached_length:
  assumes "wf_List h d" and "String_go d h = Inr xs"
  shows "(\<exists>h'. Append g toString d v h = Inr h' \<and> true_size h' d = length xs + 1 \<and>
                (\<not> stale h d \<longrightarrow> stale h' d)) \<and>
         (\<exists>h'. Extend g d subs h = Inr h' \<and> true_size h' d = length xs + length subs \<and>
                (\<not> stale h d \<and> subs \<noteq> [] \<longrightarrow> stale h' d)) \<and>
         (0 \<le> sint idx \<and> sint idx \<le> int (length xs) \<longrightarrow>
            (\<exists>h'. Insert g toString d idx v h = Inr h' \<and> true_size h' d = length xs + 1 \<and>
                   (\<not> stale h d \<longrightarrow> stale h' d))) \<and>
         (toString v \<in> set xs \<longrightarrow>
            (\<exists>h'. Remove g toString d v h = Inr h' \<and> true_size h' d = length xs - 1 \<and>
                   (\<not> stale h d \<longrightarrow> stale h' d))) \<and>
         (length xs < 2 ^ 63 \<and> 0 \<le> sint (if idx <s 0 then Length d + idx else idx) \<and>
          sint (if idx <s 0 then Length d + idx else idx) < int (length xs) \<longrightarrow>
            (\<exists>h'. Pop g d idx h = Inr h' \<and> true_size h' d = length xs - 1 \<and>
                   (\<not> stale h d \<longrightarrow> stale h' d)))"
proof -
  have size: "true_size h d = length xs"
    using assms by (rule true_size_String)
  have app: "\<exists>h'. Append g toString d v h = Inr h' \<and> true_size h' d = length xs + 1 \<and>
      (\<not> stale h d \<longrightarrow> stale h' d)"
  proof -
    from Append_effect[OF assms, of g toString v] obtain h' where
      "Append g toString d v h = Inr h'" "wf_List h' d" "String_go d h' = Inr (xs @ [toString v])"
      by blast
    with size true_size_String[of h' d "xs @ [toString v]"] show ?thesis
      by (auto simp: stale_def Length_def)
  qed
  have ext: "\<exists>h'. Extend g d subs h = Inr h' \<and> true_size h' d = length xs + length subs \<and>
      (\<not> stale h d \<and> subs \<noteq> [] \<longrightarrow> stale h' d)"
  proof -
    from Extend_effect[OF assms, of g subs] obtain h' where
      "Extend g d subs h = Inr h'" "wf_List h' d" "String_go d h' = Inr (xs @ subs)"
      by blast
    with size true_size_String[of h' d "xs @ subs"] show ?thesis
      by (auto simp: stale_def Length_def)
  qed
  have ins: "\<exists>h'. Insert g toString d idx v h = Inr h' \<and> true_size h' d = length xs + 1 \<and>
      (\<not> stale h d \<longrightarrow> stale h' d)"
    if "0 \<le> sint idx \<and> sint idx \<le> int (length xs)"
  proof -
    from that Insert_effect[OF assms, of idx g toString v] obtain h' zs where
      h': "Insert g toString d idx v h = Inr h'" "wf_List h' d" "String_go d h' = Inr zs"
      and zs: "zs = take (nat (sint idx)) xs @ [toString v] @
        drop (nat (sint idx)) (xs[nat (sint idx) := toString v])"
      by blast
    from that zs have "length zs = length xs + 1" by auto
    with h' size true_size_String[of h' d zs] show ?thesis
      by (auto simp: stale_def Length_def)
  qed
  have rem: "\<exists>h'. Remove g toString d v h = Inr h' \<and> true_size h' d = length xs - 1 \<and>
      (\<not> stale h d \<longrightarrow> stale h' d)"
    if "toString v \<in> set xs"
  proof -
    from that have "xs \<noteq> []" by auto
    then have "int (length xs) \<noteq> int (length xs - 1)" by (cases xs) auto
    with Remove_present[of h d xs toString v g, OF assms that] size show ?thesis
      by (auto simp: stale_def Length_def)
  qed
  have pop: "\<exists>h'. Pop g d idx h = Inr h' \<and> true_size h' d = length xs - 1 \<and>
      (\<not> stale h d \<longrightarrow> stale h' d)"
    if "length xs < 2 ^ 63 \<and> 0 \<le> sint (if idx <s 0 then Length d + idx else idx) \<and>
          sint (if idx <s 0 then Length d + idx else idx) < int (length xs)"
  proof -
    define w where "w = (if idx <s 0 then length_go d + idx else idx)"
    from that have r: "length xs < 2 ^ 63" "0 \<le> sint w" "sint w < int (length xs)"
      unfolding w_def Length_def by blast+
    from Pop_effect[OF assms r(1) w_def r(2,3), of g] obtain h' zs where
      h': "Pop g d idx h = Inr h'" "wf_List h' d" "String_go d h' = Inr zs"
      and zs: "zs = take (nat (sint w)) xs @ drop (Suc (nat (sint w))) xs"
      by blast
    from r zs have "length zs = length xs - 1" by auto
    moreover from r have "int (length xs) \<noteq> int (length xs - 1)" by auto
    ultimately show ?thesis
      using h' size true_size_String[of h' d zs] by (auto simp: stale_def Length_def)
  qed
  from app ext ins rem pop show ?thesis by blast
qed

theorem mutations_leave_cached_length_witness:
  "Length (fst ex_pop) = 3 \<and> true_size (snd ex_pop) (fst ex_pop) = 3 \<and>
   \<not> stale (snd ex_pop) (fst ex_pop) \<and>
   (\<exists>h'. Append exact_fit id (fst ex_pop) ''d'' (snd ex_pop) = Inr h' \<and>
          true_size h' (fst ex_pop) = 4 \<and> stale h' (fst ex_pop)) \<and>
   (\<exists>h'. Extend exact_fit (fst ex_pop) [''d'', ''e''] (snd ex_pop) = Inr h' \<and>
          true_size h' (fst ex_pop) = 5 \<and> stale h' (fst ex_pop)) \<and>
   (\<exists>h'. Insert exact_fit id (fst ex_pop) 2 ''b'' (snd ex_pop) = Inr h' \<and>
          true_size h' (fst ex_pop) = 4 \<and> stale h' (fst ex_pop)) \<and>
   (\<exists>h'. Remove exact_fit id (fst ex_pop) ''b'' (snd ex_pop) = Inr h' \<and>
          true_size h' (fst ex_pop) = 2 \<and> stale h' (fst ex_pop)) \<and>
   (\<exists>h'. Pop exact_fit (fst ex_pop) 2 (snd ex_pop) = Inr h' \<and>
          true_size h' (fst ex_pop) = 2 \<and> stale h' (fst ex_pop))"
proof -
  have wf: "wf_List (snd ex_pop) (fst ex_pop)"
    and xs: "String_go (fst ex_pop) (snd ex_pop) = Inr [''a'', ''b'', ''c'']"
    and l: "Length (fst ex_pop) = 3" "true_size (snd ex_pop) (fst ex_pop) = 3"
      "\<not> stale (snd ex_pop) (fst ex_pop)"
    by (simp_all add: ex_pop_def store_defs wf_List_def wf_slice_def Length_def
        true_size_def stale_def Length_def)
  from mutations_leave_cached_length[OF wf xs, where g = exact_fit and toString = id
      and v = "''d''" and subs = "[''d'', ''e'']" and idx = 1]
  have "(\<exists>h'. Append exact_fit id (fst ex_pop) ''d'' (snd ex_pop) = Inr h' \<and>
          true_size h' (fst ex_pop) = 4 \<and> stale h' (fst ex_pop)) \<and>
   (\<exists>h'. Extend exact_fit (fst ex_pop) [''d'', ''e''] (snd ex_pop) = Inr h' \<and>
          true_size h' (fst ex_pop) = 5 \<and> stale h' (fst ex_pop))"
    using l by auto
  moreover
  from mutations_leave_cached_length[OF wf xs, where g = exact_fit and toString = id
      and v = "''b''" and subs = "[]" and idx = 2]
  have "(\<exists>h'. Insert exact_fit id (fst ex_pop) 2 ''b'' (snd ex_pop) = Inr h' \<and>
          true_size h' (fst ex_pop) = 4 \<and> stale h' (fst ex_pop)) \<and>
   (\<exists>h'. Remove exact_fit id (fst ex_pop) ''b'' (snd ex_pop) = Inr h' \<and>
          true_size h' (fst ex_pop) = 2 \<and> stale h' (fst ex_pop)) \<and>
   (\<exists>h'. Pop exact_fit (fst ex_pop) 2 (snd ex_pop) = Inr h' \<and>
          true_size h' (fst ex_pop) = 2 \<and> stale h' (fst ex_pop))"
    using l by (auto simp: word_sless_alt)
  ultimately show ?thesis using l by blast
qed

section \<open>Copy\<close>

text \<open>
  Claim C4. \<open>Copy\<close> of a well-formed list allocates nothing and returns an instance
  with the same cached length and the same pointer: the backing storage is shared, so
  an \<open>Append\<close> through the original shows in \<open>String()\<close> of the copy, and one through
  the copy shows in \<open>String()\<close> of the original.
\<close>

theorem Copy_shares_storage:
  assumes "wf_List h d" and "String_go d h = Inr xs" and "Copy d h = (c, h')"
  shows "h' = h \<and> Length c = Length d \<and> value_go c = value_go d \<and>
         (\<exists>h1. Append g toString d v h' = Inr h1 \<and>
                String_go c h1 = Inr (xs @ [toString v])) \<and>
         (\<exists>h2. Append g toString c v h' = Inr h2 \<and>
                String_go d h2 = Inr (xs @ [toString v]))"
proof -
  from assms(1) obtain a where a: "value_go d = Some a"
    by (rule wf_List_cases)
  with assms(3) have c: "c = d" and h': "h' = h"
    by (cases d, auto simp: Copy_def ensureInitialized_def)+
  from Append_effect[OF assms(1,2), of g toString v] show ?thesis
    unfolding c h' by auto
qed

theorem Copy_shares_storage_witness:
  "wf_List (snd ex_pop) (fst ex_pop) \<and>
   String_go (fst ex_pop) (snd ex_pop) = Inr [''a'', ''b'', ''c''] \<and>
   snd ex_copy = snd ex_pop \<and> Length (fst ex_copy) = 3 \<and>
   (\<exists>h1. Append exact_fit id (fst ex_pop) ''d'' (snd ex_copy) = Inr h1 \<and>
          String_go (fst ex_copy) h1 = Inr [''a'', ''b'', ''c'', ''d'']) \<and>
   (\<exists>h2. Append exact_fit id (fst ex_copy) ''d'' (snd ex_copy) = Inr h2 \<and>
          String_go (fst ex_pop) h2 = Inr [''a'', ''b'', ''c'', ''d''])"
proof -
  have wf: "wf_List (snd ex_pop) (fst ex_pop)"
    and xs: "String_go (fst ex_pop) (snd ex_pop) = Inr [''a'', ''b'', ''c'']"
    and l: "Length (fst ex_pop) = 3"
    by (simp_all add: ex_pop_def store_defs wf_List_def wf_slice_def Length_def)
  have c: "Copy (fst ex_pop) (snd ex_pop) = (fst ex_copy, snd ex_copy)"
    by (simp add: ex_copy_def)
  from Copy_shares_storage[OF wf xs c, of exact_fit id "''d''"] wf xs l
  show ?thesis by auto
qed
section \<open>Index after Append\<close>

lemma inI_loop_first:
  "inI_loop xs s i =
     (if s \<in> set xs then (of_nat (i + length (takeWhile (\<lambda>x. x \<noteq> s) xs)), True)
      else (- 1, False))"
  by (induction xs arbitrary: i) auto

lemma Index_first:
  assumes "String_go d h = Inr xs" and "toString v \<in> set xs"
  shows "Index toString d v h = Inr (of_nat (length (takeWhile (\<lambda>x. x \<noteq> toString v) xs)))"
  using assms
  by (auto simp: Index_def inI_def String_go_def inI_loop_first split: option.splits)

text \<open>
  Claim C7, as the code has it. After \<open>Append(v)\<close> the call \<open>Index(v)\<close> returns the first
  position that holds the coercion of \<open>v\<close>: the number of leading elements that differ
  from it. That is the last valid position (the new true size minus one) when the
  coercion of \<open>v\<close> did not occur in the list before the \<open>Append\<close>.
\<close>

theorem Append_then_Index:
  assumes "wf_List h d" and "String_go d h = Inr xs"
  shows "\<exists>h'. Append g toString d v h = Inr h' \<and> true_size h' d = length xs + 1 \<and>
           Index toString d v h' =
             Inr (of_nat (length (takeWhile (\<lambda>x. x \<noteq> toString v) xs))) \<and>
           (toString v \<notin> set xs \<longrightarrow>
              Index toString d v h' = Inr (of_nat (true_size h' d - 1)))"
proof -
  from Append_effect[OF assms, of g toString v] obtain h' where h':
    "Append g toString d v h = Inr h'" "wf_List h' d"
    "String_go d h' = Inr (xs @ [toString v])"
    by blast
  have size: "true_size h' d = length xs + 1"
    using true_size_String[OF h'(2,3)] by simp
  have "Index toString d v h' =
      Inr (of_nat (length (takeWhile (\<lambda>x. x \<noteq> toString v) (xs @ [toString v]))))"
    using h'(3) by (rule Index_first) simp
  also have "length (takeWhile (\<lambda>x. x \<noteq> toString v) (xs @ [toString v])) =
      length (takeWhile (\<lambda>x. x \<noteq> toString v) xs)"
    by (induction xs) auto
  finally have idx: "Index toString d v h' =
      Inr (of_nat (length (takeWhile (\<lambda>x. x \<noteq> toString v) xs)))" .
  moreover have "length (takeWhile (\<lambda>x. x \<noteq> toString v) xs) = length xs"
    if "toString v \<notin> set xs"
    using that by (induction xs) auto
  ultimately show ?thesis using h'(1) size by auto
qed

theorem Append_then_Index_witness:
  "wf_List (snd ex_dup) (fst ex_dup) \<and>
   String_go (fst ex_dup) (snd ex_dup) = Inr [''a'', ''b''] \<and>
   (\<exists>h'. Append exact_fit id (fst ex_dup) ''c'' (snd ex_dup) = Inr h' \<and>
          true_size h' (fst ex_dup) = 3 \<and> Index id (fst ex_dup) ''c'' h' = Inr 2) \<and>
   (\<exists>h'. Append exact_fit id (fst ex_dup) ''b'' (snd ex_dup) = Inr h' \<and>
          true_size h' (fst ex_dup) = 3 \<and> Index id (fst ex_dup) ''b'' h' = Inr 1)"
proof -
  have wf: "wf_List (snd ex_dup) (fst ex_dup)"
    and xs: "String_go (fst ex_dup) (snd ex_dup) = Inr [''a'', ''b'']"
    by (simp_all add: ex_dup_def store_defs wf_List_def wf_slice_def)
  from Append_then_Index[OF wf xs, of exact_fit id "''c''"]
    Append_then_Index[OF wf xs, of exact_fit id "''b''"] wf xs
  show ?thesis by auto
qed

text \<open>
  Claim C7 as stated, for every value, fails when the value occurs already: on
  \<open>[a, b]\<close>, after \<open>Append(a)\<close> the true size is 3 and the last valid position is 2,
  and \<open>Index(a)\<close> is 0.
\<close>

theorem Append_then_Index_counterexample:
  "String_go (fst ex_dup) (snd ex_dup) = Inr [''a'', ''b''] \<and>
   Append exact_fit id (fst ex_dup) ''a'' (snd ex_dup) = Inr ex_dup_heap \<and>
   String_go (fst ex_dup) ex_dup_heap = Inr [''a'', ''b'', ''a''] \<and>
   true_size ex_dup_heap (fst ex_dup) = 3 \<and>
   Index id (fst ex_dup) ''a'' ex_dup_heap = Inr 0 \<and>
   Index id (fst ex_dup) ''a'' ex_dup_heap \<noteq> Inr (of_nat (true_size ex_dup_heap (fst ex_dup) - 1))"
  by (simp add: ex_dup_def ex_dup_heap_def store_defs Append_def append_go_def store_def
      exact_fit_def Let_def true_size_def Index_def inI_def)
section \<open>Remove and Insert on concrete lists\<close>

text \<open>
  Claim C1 (not met by the code). \<open>Remove\<close> has no \<open>break\<close>: after the first match
  it goes on over the shifted array and removes again at every later match. On
  \<open>[a, b, a, c]\<close> with value \<open>a\<close> the result is \<open>[b, c, c]\<close>, where removing the first
  occurrence alone gives \<open>[b, a, c]\<close>.
\<close>

theorem Remove_after_first_match:
  "String_go (fst ex_abac) (snd ex_abac) = Inr [''a'', ''b'', ''a'', ''c''] \<and>
   Remove exact_fit id (fst ex_abac) ''a'' (snd ex_abac) = Inr ex_abac_heap \<and>
   String_go (fst ex_abac) ex_abac_heap = Inr [''b'', ''c'', ''c''] \<and>
   remove1 ''a'' [''a'', ''b'', ''a'', ''c''] = [''b'', ''a'', ''c'']"
  by (simp add: ex_abac_def ex_abac_heap_def store_defs Remove_def at_go_def reslice_def
      append_go_def write_at_def store_def Let_def)

text \<open>The example of the specification, \<open>[a, b, a]\<close>, is one where the defect does not show.\<close>

lemma Remove_aba:
  "(case Remove exact_fit id (fst (NewList_lit [''a'', ''b'', ''a''] empty_heap)) ''a''
          (snd (NewList_lit [''a'', ''b'', ''a''] empty_heap)) of
      Inl e \<Rightarrow> Inl e
    | Inr h \<Rightarrow> String_go (fst (NewList_lit [''a'', ''b'', ''a''] empty_heap)) h) =
   Inr [''b'', ''a'']"
  by (simp add: store_defs Remove_def at_go_def reslice_def
      append_go_def write_at_def store_def Let_def)

text \<open>
  Claim C6 (not met by the code). \<open>append(fats[:idx], str)\<close> writes \<open>str\<close> over
  \<open>fats[idx]\<close> in the shared array before \<open>fats[idx:]\<close> is read, so for an index inside
  the sequence the old element at \<open>idx\<close> is lost and \<open>str\<close> appears twice
  (\<open>Insert_effect\<close> above). On \<open>[a, b]\<close>, \<open>Insert(0, x)\<close> gives \<open>[x, x, b]\<close>, where
  inserting gives \<open>[x, a, b]\<close>.
\<close>

theorem Insert_overwrites:
  "String_go (fst ex_dup) (snd ex_dup) = Inr [''a'', ''b''] \<and>
   Insert exact_fit id (fst ex_dup) 0 ''x'' (snd ex_dup) = Inr ex_insert_heap \<and>
   String_go (fst ex_dup) ex_insert_heap = Inr [''x'', ''x'', ''b'']"
  by (simp add: ex_dup_def ex_insert_heap_def store_defs Insert_def reslice_def
      append_go_def write_at_def store_def exact_fit_def Let_def)

section \<open>Min and Max\<close>











section \<open>Sub\<close>

lemma keys_map_set: "fst ` set (map_set m k b) = insert k (fst ` set m)"
  by (induction m k b rule: map_set.induct) auto

lemma distinct_map_set:
  "distinct (map fst m) \<Longrightarrow> distinct (map fst (map_set m k b))"
proof (induction m k b rule: map_set.induct)
  case (1 k b)
  then show ?case by simp
next
  case (2 k' b' m k b)
  show ?case
  proof (cases "k' = k")
    case True
    with 2 show ?thesis by simp
  next
    case False
    from 2 have "k' \<notin> fst ` set m" by simp
    with False have "k' \<notin> fst ` set (map_set m k b)"
      by (simp add: keys_map_set)
    with 2 False show ?thesis by simp
  qed
qed

lemma map_get_key: "map_get m k \<Longrightarrow> k \<in> fst ` set m"
proof -
  assume "map_get m k"
  then have "map_of m k = Some True"
    by (auto simp: map_get_def split: option.splits)
  then have "(k, True) \<in> set m" by (rule map_of_SomeD)
  then show ?thesis by force
qed

text \<open>The first loop of \<open>Sub\<close> enters every element as a key, once.\<close>

lemma Sub_fill_keys: "fst ` set (Sub_fill vs m) = fst ` set m \<union> set vs"
proof (induction vs arbitrary: m)
  case Nil
  then show ?case by simp
next
  case (Cons v vs)
  show ?case
  proof (cases "map_get m v")
    case True
    then have "v \<in> fst ` set m" by (rule map_get_key)
    with True show ?thesis by (auto simp: Cons.IH)
  next
    case False
    then show ?thesis by (simp add: Cons.IH keys_map_set)
  qed
qed

lemma Sub_fill_distinct:
  "distinct (map fst m) \<Longrightarrow> distinct (map fst (Sub_fill vs m))"
  by (induction vs arbitrary: m) (simp_all add: distinct_map_set)

text \<open>The second loop appends the keys in the order of the iteration.\<close>

lemma Sub_collect_effect:
  assumes "wf_slice h s" and "Sub_collect g ms s h = (s', h')"
  shows "wf_slice h' s' \<and> elems h' s' = elems h s @ map fst ms \<and> cells h' = cells h"
  using assms
proof (induction ms arbitrary: s h)
  case Nil
  then show ?case by simp
next
  case (Cons kv ms)
  obtain k b where kv: "kv = (k, b)" by (cases kv)
  obtain s1 h1 where app: "append_go g h s [k] = (s1, h1)" by fastforce
  from Cons.prems(1) app have 1: "wf_slice h1 s1" "elems h1 s1 = elems h s @ [k]"
    "cells h1 = cells h"
    by (rule append_go_wf, rule append_go_elems, simp add: append_go_cells)
  from Cons.prems(2) have "Sub_collect g ms s1 h1 = (s', h')"
    by (simp add: kv app)
  from Cons.IH[OF 1(1) this] 1(2,3) show ?case by (simp add: kv)
qed

lemma make_go_effect:
  assumes "make_go h c = (s, h')"
  shows "wf_slice h' s" and "elems h' s = []" and "cells h' = cells h"
  using assms by (auto simp: make_go_def wf_slice_def elems_def)

text \<open>
  Claim C5. For every two lists the backing sequence of \<open>A.Sub(B)\<close> has no duplicates
  and its set of elements is the union of the elements of \<open>A\<close> and of \<open>B\<close>, in whatever
  order the iteration over the map visits the keys.
\<close>

theorem Sub_is_union:
  assumes "wf_List h d" and "String_go d h = Inr xs" and "String_go d2 h = Inr ys"
    and "\<forall>m. mset (order m) = mset m"
  shows "\<exists>r h' zs. Sub g order d d2 h = Inr (r, h') \<and> String_go r h' = Inr zs \<and>
           set zs = set xs \<union> set ys \<and> distinct zs \<and> Length r = of_nat (length zs)"
proof -
  from assms(1) obtain a where a: "value_go d = Some a" "a < length (cells h)"
    "wf_slice h (cells h ! a)" by (rule wf_List_cases)
  from assms(3) obtain a2 where a2: "value_go d2 = Some a2" "ys = elems h (cells h ! a2)"
    by (auto simp: String_go_def split: option.splits)
  from assms(2) a(1) have xs: "xs = elems h (cells h ! a)"
    by (simp add: String_go_def)
  obtain d2Value h1 where app: "append_go g h (cells h ! a) ys = (d2Value, h1)"
    by fastforce
  with a(3) have all: "elems h1 d2Value = xs @ ys"
    by (simp add: append_go_elems xs)
  define d2Map where "d2Map = Sub_fill (xs @ ys) []"
  have keys: "fst ` set d2Map = set xs \<union> set ys" "distinct (map fst d2Map)"
    by (simp_all add: d2Map_def Sub_fill_keys Sub_fill_distinct)
  from assms(4) have "mset (map fst (order d2Map)) = mset (map fst d2Map)"
    by (metis mset_map)
  then have "set (map fst (order d2Map)) = set (map fst d2Map)"
    and odist: "distinct (map fst (order d2Map)) = distinct (map fst d2Map)"
    by (rule mset_eq_setD, rule mset_eq_imp_distinct_iff)
  then have okeys: "fst ` set (order d2Map) = fst ` set d2Map"
    by simp
  obtain d3Value0 h2 where mk: "make_go h1 (s_len (cells h ! a) + s_len (cells h ! a2)) = (d3Value0, h2)"
    by fastforce
  obtain d3Value h3 where col: "Sub_collect g (order d2Map) d3Value0 h2 = (d3Value, h3)"
    by fastforce
  from make_go_effect[OF mk] Sub_collect_effect[OF _ col]
  have zs: "elems h3 d3Value = map fst (order d2Map)" and wf3: "wf_slice h3 d3Value"
    by simp_all
  define r where "r = \<lparr>value_go = Some (length (cells h3)), length_go = of_nat (s_len d3Value)\<rparr>"
  define h4 where "h4 = h3\<lparr>cells := cells h3 @ [d3Value]\<rparr>"
  have "Sub g order d d2 h = Inr (r, h4)"
    using a(1) a2(1) app all mk col
    by (simp add: Sub_def Let_def new_cell_def r_def h4_def d2Map_def a2(2))
  moreover have "String_go r h4 = Inr (map fst (order d2Map))"
    using zs by (simp add: String_go_def r_def h4_def elems_def)
  moreover have "Length r = of_nat (length (map fst (order d2Map)))"
    using length_elems[OF wf3] zs by (simp add: Length_def r_def)
  ultimately show ?thesis using keys okeys odist by auto
qed

theorem Sub_is_union_witness:
  "wf_List (snd ex_sub) (fst ex_sub ! 0) \<and>
   String_go (fst ex_sub ! 0) (snd ex_sub) = Inr [''a'', ''b'', ''a''] \<and>
   String_go (fst ex_sub ! 1) (snd ex_sub) = Inr [''b'', ''c''] \<and>
   (\<exists>r h' zs. Sub exact_fit rev (fst ex_sub ! 0) (fst ex_sub ! 1) (snd ex_sub) = Inr (r, h') \<and>
      String_go r h' = Inr zs \<and> set zs = {''a'', ''b'', ''c''} \<and> distinct zs \<and>
      Length r = of_nat (length zs)) \<and>
   (case Sub exact_fit rev (fst ex_sub ! 0) (fst ex_sub ! 1) (snd ex_sub) of
      Inl e \<Rightarrow> Inl e | Inr (r, h') \<Rightarrow> String_go r h') = Inr [''c'', ''b'', ''a''] \<and>
   (case Sub exact_fit id (fst ex_sub ! 0) (fst ex_sub ! 1) (snd ex_sub) of
      Inl e \<Rightarrow> Inl e | Inr (r, h') \<Rightarrow> String_go r h') = Inr [''a'', ''b'', ''c'']"
proof -
  have wf: "wf_List (snd ex_sub) (fst ex_sub ! 0)"
    and xs: "String_go (fst ex_sub ! 0) (snd ex_sub) = Inr [''a'', ''b'', ''a'']"
    and ys: "String_go (fst ex_sub ! 1) (snd ex_sub) = Inr [''b'', ''c'']"
    by (simp_all add: ex_sub_def store_defs wf_List_def wf_slice_def)
  have order: "\<forall>m :: go_map. mset (rev m) = mset m"
    by simp
  have ev: "(case Sub exact_fit rev (fst ex_sub ! 0) (fst ex_sub ! 1) (snd ex_sub) of
      Inl e \<Rightarrow> Inl e | Inr (r, h') \<Rightarrow> String_go r h') = Inr [''c'', ''b'', ''a'']"
    "(case Sub exact_fit id (fst ex_sub ! 0) (fst ex_sub ! 1) (snd ex_sub) of
      Inl e \<Rightarrow> Inl e | Inr (r, h') \<Rightarrow> String_go r h') = Inr [''a'', ''b'', ''c'']"
    by (simp_all add: ex_sub_def store_defs Sub_def append_go_def make_go_def map_get_def write_at_def
        exact_fit_def Let_def)
  from Sub_is_union[OF wf xs ys order, of exact_fit] wf xs ys ev
  show ?thesis by auto
qed

end
